theory Spec2Isabelle
  imports Main "HOL-Library.Word"
begin

section \<open>The ChallengeEscrow contract\<close>

text \<open>
  Solidity's \<open>address\<close> is a 160-bit value and \<open>uint256\<close> a 256-bit one. The contract
  is compiled with Solidity 0.8, whose \<open>+=\<close> and \<open>-=\<close> revert (Panic 0x11) instead of
  wrapping; every such check is written out below.
\<close>

type_synonym address = "160 word"
type_synonym uint256 = "256 word"

record LockedStake =
  token :: address
  amount :: uint256
  lockedAt :: uint256
  challengeId :: uint256
  released :: bool

datatype event =
    StakeLocked address address uint256 uint256
  | StakeReleased address address uint256 uint256
  | StakeTransferred address address address uint256 uint256 string
  | ChallengeFactoryUpdated address

text \<open>
  The ways a call reverts:
  \<^item> \<open>Unauthorized\<close>: \<open>require(msg.sender == challengeFactory, "Only ChallengeFactory")\<close>
    of the modifier \<open>onlyFactory\<close>, and the \<open>onlyOwner\<close> check of Ownable;
  \<^item> \<open>InvalidArgument\<close>: the \<open>require\<close> checks on the arguments
    ("Invalid user", "Invalid token", "Amount must be > 0", "Invalid from", "Invalid to",
    "Invalid factory");
  \<^item> \<open>TransferFailed\<close>: the SafeERC20 call reverts;
  \<^item> \<open>ArithmeticPanic\<close>: checked \<open>uint256\<close> arithmetic overflows or underflows.
\<close>

datatype error = Unauthorized | InvalidArgument | TransferFailed | ArithmeticPanic

subsection \<open>The token contracts\<close>

text \<open>
  The ERC20 tokens are external contracts. They are modelled as the standard ledger of
  balances and allowances: a transfer fails when the sender's balance (for
  \<open>transferFrom\<close> also the spender's allowance) is too small, or when no contract
  lives at the token address; SafeERC20 turns each failure into a revert.
\<close>

record erc20 =
  balanceOf :: "address \<Rightarrow> uint256"
  allowance :: "address \<Rightarrow> address \<Rightarrow> uint256"

definition erc20_move :: "erc20 \<Rightarrow> address \<Rightarrow> address \<Rightarrow> uint256 \<Rightarrow> erc20 option" where
  "erc20_move t src dst amt =
     (if balanceOf t src < amt then None
      else let b = (balanceOf t)(src := balanceOf t src - amt) in
        if 2 ^ 256 \<le> unat (b dst) + unat amt then None
        else Some (t\<lparr>balanceOf := b(dst := b dst + amt)\<rparr>))"

definition safeTransfer ::
  "(address \<rightharpoonup> erc20) \<Rightarrow> address \<Rightarrow> address \<Rightarrow> address \<Rightarrow> uint256 \<Rightarrow> (address \<rightharpoonup> erc20) option" where
  "safeTransfer bk tok holder dst amt =
     (case bk tok of
        None \<Rightarrow> None
      | Some t \<Rightarrow>
          (case erc20_move t holder dst amt of
             None \<Rightarrow> None
           | Some t' \<Rightarrow> Some (bk(tok \<mapsto> t'))))"

definition safeTransferFrom ::
  "(address \<rightharpoonup> erc20) \<Rightarrow> address \<Rightarrow> address \<Rightarrow> address \<Rightarrow> address \<Rightarrow> uint256
     \<Rightarrow> (address \<rightharpoonup> erc20) option" where
  "safeTransferFrom bk tok spender src dst amt =
     (case bk tok of
        None \<Rightarrow> None
      | Some t \<Rightarrow>
          if allowance t src spender < amt then None
          else
            (case erc20_move
                    (t\<lparr>allowance := (allowance t)(src := (allowance t src)
                          (spender := allowance t src spender - amt))\<rparr>) src dst amt of
               None \<Rightarrow> None
             | Some t' \<Rightarrow> Some (bk(tok \<mapsto> t'))))"

subsection \<open>Contract state\<close>

text \<open>
  The storage of the contract (\<open>owner\<close> comes from Ownable), its own address
  \<open>address(this)\<close>, the token contracts it talks to, and the log of emitted events. A
  Solidity mapping is total: an absent key reads as zero, or as the empty array.
  The \<open>nonReentrant\<close> flag is clear between transactions and the modelled tokens never
  call back, so the guard never fires and is left out. Of the functions inherited from
  Ownable only the \<open>onlyOwner\<close> check is modelled; the owner stays who deployed the
  contract.
\<close>

record escrow =
  owner :: address
  challengeFactory :: address
  totalLockedByToken :: "address \<Rightarrow> address \<Rightarrow> uint256"
  challengeParticipants :: "uint256 \<Rightarrow> address list"
  challengeStakes :: "uint256 \<Rightarrow> LockedStake list"
  self :: address
  bank :: "address \<rightharpoonup> erc20"
  events :: "event list"

definition constructor ::
  "address \<Rightarrow> address \<Rightarrow> (address \<rightharpoonup> erc20) \<Rightarrow> address \<Rightarrow> error + escrow" where
  "constructor sender this bk factory =
     (if factory = 0 then Inl InvalidArgument
      else Inr \<lparr>owner = sender, challengeFactory = factory,
                totalLockedByToken = (\<lambda>_ _. 0),
                challengeParticipants = (\<lambda>_. []),
                challengeStakes = (\<lambda>_. []),
                self = this, bank = bk, events = []\<rparr>)"

subsection \<open>lockStake\<close>

definition lockStake ::
  "escrow \<Rightarrow> address \<Rightarrow> uint256 \<Rightarrow> address \<Rightarrow> address \<Rightarrow> uint256 \<Rightarrow> uint256 \<Rightarrow> error + escrow" where
  "lockStake s sender now user tok amt cid =
     (if sender \<noteq> challengeFactory s then Inl Unauthorized
      else if user = 0 then Inl InvalidArgument
      else if tok = 0 then Inl InvalidArgument
      else if \<not> 0 < amt then Inl InvalidArgument
      else
        (case safeTransferFrom (bank s) tok (self s) sender (self s) amt of
           None \<Rightarrow> Inl TransferFailed
         | Some bk \<Rightarrow>
             let newStake = \<lparr>token = tok, amount = amt, lockedAt = now,
                              challengeId = cid, released = False\<rparr> in
             if 2 ^ 256 \<le> unat (totalLockedByToken s user tok) + unat amt
             then Inl ArithmeticPanic
             else Inr (s\<lparr>bank := bk,
                 challengeStakes := (challengeStakes s)(cid := challengeStakes s cid @ [newStake]),
                 totalLockedByToken := (totalLockedByToken s)
                   (user := (totalLockedByToken s user)(tok := totalLockedByToken s user tok + amt)),
                 challengeParticipants :=
                   (challengeParticipants s)(cid := challengeParticipants s cid @ [user]),
                 events := events s @ [StakeLocked user tok amt cid]\<rparr>)))"

subsection \<open>releaseStakes\<close>

text \<open>
  The body of the inner loop for the stake at index \<open>j\<close> and the user of the outer
  loop: an unreleased stake is paid to that user, whoever deposited it.
\<close>

definition release_stake :: "uint256 \<Rightarrow> address \<Rightarrow> nat \<Rightarrow> escrow \<Rightarrow> error + escrow" where
  "release_stake cid user j s =
     (let stake = challengeStakes s cid ! j in
      if \<not> released stake then
        (case safeTransfer (bank s) (token stake) (self s) user (amount stake) of
           None \<Rightarrow> Inl TransferFailed
         | Some bk \<Rightarrow>
             if totalLockedByToken s user (token stake) < amount stake then Inl ArithmeticPanic
             else Inr (s\<lparr>bank := bk,
                 totalLockedByToken := (totalLockedByToken s)
                   (user := (totalLockedByToken s user)
                      (token stake := totalLockedByToken s user (token stake) - amount stake)),
                 challengeStakes := (challengeStakes s)
                   (cid := (challengeStakes s cid)[j := stake\<lparr>released := True\<rparr>]),
                 events := events s @ [StakeReleased user (token stake) (amount stake) cid]\<rparr>))
      else Inr s)"

text \<open>The inner loop \<open>for (j = ...; j < stakes.length; j++)\<close>, from index \<open>j\<close> on.\<close>

function release_from :: "uint256 \<Rightarrow> address \<Rightarrow> nat \<Rightarrow> escrow \<Rightarrow> error + escrow" where
  "release_from cid user j s =
     (if j < length (challengeStakes s cid) then
        (case release_stake cid user j s of
           Inl e \<Rightarrow> Inl e
         | Inr s' \<Rightarrow> release_from cid user (j + 1) s')
      else Inr s)"
  by pat_completeness auto
termination
  by (relation "measure (\<lambda>(cid, user, j, s). length (challengeStakes s cid) - j)")
     (auto simp: release_stake_def Let_def split: if_splits option.splits)

declare release_from.simps [simp del]

text \<open>The outer loop over \<open>users\<close>.\<close>

fun release_users :: "uint256 \<Rightarrow> address list \<Rightarrow> escrow \<Rightarrow> error + escrow" where
  "release_users cid [] s = Inr s"
| "release_users cid (user # users) s =
     (case release_from cid user 0 s of
        Inl e \<Rightarrow> Inl e
      | Inr s' \<Rightarrow> release_users cid users s')"

definition releaseStakes :: "escrow \<Rightarrow> address \<Rightarrow> uint256 \<Rightarrow> address list \<Rightarrow> error + escrow" where
  "releaseStakes s sender cid users =
     (if sender \<noteq> challengeFactory s then Inl Unauthorized
      else release_users cid users s)"

subsection \<open>transferStake\<close>

definition transferStake ::
  "escrow \<Rightarrow> address \<Rightarrow> address \<Rightarrow> address \<Rightarrow> address \<Rightarrow> uint256 \<Rightarrow> uint256 \<Rightarrow> error + escrow" where
  "transferStake s sender src dst tok amt cid =
     (if sender \<noteq> challengeFactory s then Inl Unauthorized
      else if src = 0 then Inl InvalidArgument
      else if dst = 0 then Inl InvalidArgument
      else if tok = 0 then Inl InvalidArgument
      else if \<not> 0 < amt then Inl InvalidArgument
      else
        (case safeTransfer (bank s) tok (self s) dst amt of
           None \<Rightarrow> Inl TransferFailed
         | Some bk \<Rightarrow>
             if totalLockedByToken s src tok < amt then Inl ArithmeticPanic
             else Inr (s\<lparr>bank := bk,
                 totalLockedByToken := (totalLockedByToken s)
                   (src := (totalLockedByToken s src)(tok := totalLockedByToken s src tok - amt)),
                 events := events s @
                   [StakeTransferred src dst tok amt cid ''Challenge settlement'']\<rparr>)))"

subsection \<open>setChallengeFactory\<close>

definition setChallengeFactory :: "escrow \<Rightarrow> address \<Rightarrow> address \<Rightarrow> error + escrow" where
  "setChallengeFactory s sender newFactory =
     (if sender \<noteq> owner s then Inl Unauthorized
      else if newFactory = 0 then Inl InvalidArgument
      else Inr (s\<lparr>challengeFactory := newFactory,
                  events := events s @ [ChallengeFactoryUpdated newFactory]\<rparr>))"

subsection \<open>Reads\<close>

definition getTotalLockedByToken :: "escrow \<Rightarrow> address \<Rightarrow> address \<Rightarrow> uint256" where
  "getTotalLockedByToken s user tok = totalLockedByToken s user tok"

definition getChallengeStakes :: "escrow \<Rightarrow> uint256 \<Rightarrow> LockedStake list" where
  "getChallengeStakes s cid = challengeStakes s cid"

definition getChallengeParticipants :: "escrow \<Rightarrow> uint256 \<Rightarrow> address list" where
  "getChallengeParticipants s cid = challengeParticipants s cid"

subsection \<open>Transactions\<close>

text \<open>
  A transaction is one external call of a mutating function, with its \<open>msg.sender\<close>
  and \<open>block.timestamp\<close>. A call that reverts rolls the whole state back, so the state
  after a failed transaction is the state before it.
\<close>

datatype call =
    LockStake address address uint256 uint256
  | ReleaseStakes uint256 "address list"
  | TransferStake address address address uint256 uint256
  | SetChallengeFactory address

record tx =
  msg_sender :: address
  block_timestamp :: uint256
  tx_call :: call

fun dispatch :: "escrow \<Rightarrow> address \<Rightarrow> uint256 \<Rightarrow> call \<Rightarrow> error + escrow" where
  "dispatch s sender now (LockStake user tok amt cid) = lockStake s sender now user tok amt cid"
| "dispatch s sender now (ReleaseStakes cid users) = releaseStakes s sender cid users"
| "dispatch s sender now (TransferStake src dst tok amt cid) =
     transferStake s sender src dst tok amt cid"
| "dispatch s sender now (SetChallengeFactory newFactory) =
     setChallengeFactory s sender newFactory"

definition execute :: "escrow \<Rightarrow> tx \<Rightarrow> error option \<times> escrow" where
  "execute s t =
     (case dispatch s (msg_sender t) (block_timestamp t) (tx_call t) of
        Inl e \<Rightarrow> (Some e, s)
      | Inr s' \<Rightarrow> (None, s'))"

fun run :: "escrow \<Rightarrow> tx list \<Rightarrow> escrow" where
  "run s [] = s"
| "run s (t # ts) = run (snd (execute s t)) ts"


subsection \<open>Ownership of stakes and the locked sum\<close>

text \<open>
  \<open>LockedStake\<close> has no owner field. The depositor of the stake at index \<open>i\<close> of
  \<open>challengeStakes[id]\<close> is the address at index \<open>i\<close> of \<open>challengeParticipants[id]\<close>.
  \<open>owned_unreleased u t ps sts\<close> adds up the amounts of the unreleased stakes of token
  \<open>t\<close> in \<open>sts\<close> whose participant in \<open>ps\<close> is \<open>u\<close>, and \<open>unreleased_sum\<close> does so over
  the challenges \<open>cids\<close>: the right-hand side of the specification's invariant
  \<open>LockedBalance[u,t] == sum(amount of unreleased StakeRecords belonging to u, for token t)\<close>.
\<close>

definition owned_unreleased :: "address \<Rightarrow> address \<Rightarrow> address list \<Rightarrow> LockedStake list \<Rightarrow> nat" where
  "owned_unreleased u t ps sts =
     sum_list (map (\<lambda>(p, st). if p = u \<and> token st = t \<and> \<not> released st
                               then unat (amount st) else 0) (zip ps sts))"

definition unreleased_sum :: "escrow \<Rightarrow> uint256 list \<Rightarrow> address \<Rightarrow> address \<Rightarrow> nat" where
  "unreleased_sum s cids u t =
     sum_list (map (\<lambda>cid. owned_unreleased u t (challengeParticipants s cid)
                             (challengeStakes s cid)) cids)"

text \<open>
  The invariant behind the locked sum: the two arrays of every challenge have the same
  length, and the balance of every user and token is the sum over any duplicate-free
  list of challenges that contains every challenge with a stake.
\<close>

definition balanced :: "escrow \<Rightarrow> bool" where
  "balanced s \<longleftrightarrow>
     (\<forall>cid. length (challengeStakes s cid) = length (challengeParticipants s cid)) \<and>
     (\<forall>cids u t. distinct cids \<and> (\<forall>cid. challengeStakes s cid \<noteq> [] \<longrightarrow> cid \<in> set cids) \<longrightarrow>
        unat (totalLockedByToken s u t) = unreleased_sum s cids u t)"

text \<open>The stake record as \<open>lockStake\<close> created it: not yet released.\<close>

definition as_locked :: "LockedStake \<Rightarrow> LockedStake" where
  "as_locked st = st\<lparr>released := False\<rparr>"

text \<open>
  The deposits of a run: for every successful \<open>lockStake\<close> on challenge \<open>cid\<close>, in
  order, the depositor and the stake record that the call created.
\<close>

fun deposit_of :: "escrow \<Rightarrow> tx \<Rightarrow> uint256 \<Rightarrow> (address \<times> LockedStake) list" where
  "deposit_of s t cid =
     (case tx_call t of
        LockStake user tok amt c \<Rightarrow>
          if c = cid \<and> fst (execute s t) = None
          then [(user, \<lparr>token = tok, amount = amt, lockedAt = block_timestamp t,
                         challengeId = c, released = False\<rparr>)]
          else []
      | _ \<Rightarrow> [])"

fun deposits :: "escrow \<Rightarrow> tx list \<Rightarrow> uint256 \<Rightarrow> (address \<times> LockedStake) list" where
  "deposits s [] cid = []"
| "deposits s (t # ts) cid = deposit_of s t cid @ deposits (snd (execute s t)) ts cid"

fun is_LockStake :: "call \<Rightarrow> bool" where
  "is_LockStake (LockStake user tok amt cid) = True"
| "is_LockStake _ = False"

section \<open>The retry loop of the submitter\<close>

text \<open>
  \<open>retryTransaction\<close> of the hook \<open>useBlockchainChallenge\<close>. The attempt function
  \<open>fn\<close> has effects, so it takes the state of the world and returns the changed one with
  its outcome; so does \<open>wait\<close>. A rejection carries an error object, of which the loop
  reads the fields \<open>message\<close> and \<open>code\<close> (either may be absent; a numeric code is
  written as its digits). The trace records
  each invocation of \<open>fn\<close> with its attempt number and outcome, and each wait with its
  length in milliseconds.
\<close>

record js_error =
  err_message :: "string option"
  err_code :: "string option"

datatype 'r outcome = Resolved 'r | Rejected js_error

datatype 'r result = Returned 'r | Threw "js_error option"

datatype action = Succeeded nat | Failed nat js_error | Waited nat

definition MAX_RETRIES :: nat where
  "MAX_RETRIES = 3"

definition RETRY_DELAY :: nat where
  "RETRY_DELAY = 2000"

fun starts_with :: "string \<Rightarrow> string \<Rightarrow> bool" where
  "starts_with ys [] = True"
| "starts_with [] (x # xs) = False"
| "starts_with (y # ys) (x # xs) = (x = y \<and> starts_with ys xs)"

text \<open>\<open>String.prototype.includes\<close>: \<open>str_includes m sub\<close> is \<open>m.includes(sub)\<close>.\<close>

fun str_includes :: "string \<Rightarrow> string \<Rightarrow> bool" where
  "str_includes [] sub = (sub = [])"
| "str_includes (c # cs) sub = (starts_with (c # cs) sub \<or> str_includes cs sub)"

definition isUserCancellation :: "js_error \<Rightarrow> bool" where
  "isUserCancellation e =
     ((case err_message e of None \<Rightarrow> False | Some m \<Rightarrow> str_includes m ''user rejected'') \<or>
      (case err_message e of None \<Rightarrow> False | Some m \<Rightarrow> str_includes m ''User denied'') \<or>
      err_code e = Some ''ACTION_REJECTED'')"

function retry_loop ::
  "('w \<Rightarrow> 'r outcome \<times> 'w) \<Rightarrow> (nat \<Rightarrow> 'w \<Rightarrow> 'w) \<Rightarrow> nat \<Rightarrow> js_error option \<Rightarrow> 'w \<Rightarrow> action list
     \<Rightarrow> 'r result \<times> 'w \<times> action list" where
  "retry_loop fn wait attempt lastError w tr =
     (if attempt \<le> MAX_RETRIES then
        (case fn w of
           (Resolved r, w') \<Rightarrow> (Returned r, w', tr @ [Succeeded attempt])
         | (Rejected e, w') \<Rightarrow>
             if isUserCancellation e then (Threw (Some e), w', tr @ [Failed attempt e])
             else if attempt = MAX_RETRIES then (Threw (Some e), w', tr @ [Failed attempt e])
             else retry_loop fn wait (attempt + 1) (Some e) (wait RETRY_DELAY w')
                    (tr @ [Failed attempt e, Waited RETRY_DELAY]))
      else (Threw lastError, w, tr))"
  by pat_completeness auto
termination
  by (relation "measure (\<lambda>(fn, wait, attempt, lastError, w, tr). MAX_RETRIES - attempt)") auto

declare retry_loop.simps [simp del]

definition retryTransaction ::
  "('w \<Rightarrow> 'r outcome \<times> 'w) \<Rightarrow> (nat \<Rightarrow> 'w \<Rightarrow> 'w) \<Rightarrow> 'w \<Rightarrow> 'r result \<times> 'w \<times> action list" where
  "retryTransaction fn wait w = retry_loop fn wait 1 None w []"

fun is_attempt :: "action \<Rightarrow> bool" where
  "is_attempt (Waited ms) = False"
| "is_attempt _ = True"

definition attempts :: "action list \<Rightarrow> nat" where
  "attempts tr = length (filter is_attempt tr)"

section \<open>A sample deployment\<close>

text \<open>
  One token with a funded and approved factory, and three users. The theorems below are
  evaluated on it.
\<close>

definition deployer :: address where "deployer = 1"
definition factory :: address where "factory = 2"
definition escrowAddr :: address where "escrowAddr = 3"
definition alice :: address where "alice = 10"
definition bob :: address where "bob = 11"
definition carol :: address where "carol = 12"
definition usdc :: address where "usdc = 20"

definition demo_token :: erc20 where
  "demo_token = \<lparr>balanceOf = (\<lambda>_. 0)(factory := 1000),
                  allowance = (\<lambda>_ _. 0)(factory := (\<lambda>_. 0)(escrowAddr := 1000))\<rparr>"

definition demo_bank :: "address \<rightharpoonup> erc20" where
  "demo_bank = Map.empty(usdc \<mapsto> demo_token)"

definition demo_init :: escrow where
  "demo_init = \<lparr>owner = deployer, challengeFactory = factory,
                totalLockedByToken = (\<lambda>_ _. 0),
                challengeParticipants = (\<lambda>_. []),
                challengeStakes = (\<lambda>_. []),
                self = escrowAddr, bank = demo_bank, events = []\<rparr>"

definition lockA :: tx where
  "lockA = \<lparr>msg_sender = factory, block_timestamp = 1, tx_call = LockStake alice usdc 100 7\<rparr>"

definition lockB :: tx where
  "lockB = \<lparr>msg_sender = factory, block_timestamp = 2, tx_call = LockStake bob usdc 50 7\<rparr>"

definition lockA8 :: tx where
  "lockA8 = \<lparr>msg_sender = factory, block_timestamp = 3, tx_call = LockStake alice usdc 50 8\<rparr>"

definition settleA :: tx where
  "settleA = \<lparr>msg_sender = factory, block_timestamp = 4,
              tx_call = TransferStake alice carol usdc 100 7\<rparr>"

definition overdrawA :: tx where
  "overdrawA = \<lparr>msg_sender = factory, block_timestamp = 4,
                tx_call = TransferStake alice carol usdc 150 7\<rparr>"

definition releaseA :: tx where
  "releaseA = \<lparr>msg_sender = factory, block_timestamp = 5, tx_call = ReleaseStakes 7 [alice]\<rparr>"

text \<open>
  Sample errors and attempt functions. The world of the attempt functions is the number
  of invocations so far, and waiting does not change it.
\<close>

definition timeout_error :: js_error where
  "timeout_error = \<lparr>err_message = Some ''could not detect network'', err_code = Some ''NETWORK_ERROR''\<rparr>"

definition denied_error :: js_error where
  "denied_error = \<lparr>err_message = Some ''MetaMask Tx Signature: User denied transaction signature.'',
                    err_code = None\<rparr>"

definition rejected_error :: js_error where
  "rejected_error = \<lparr>err_message = Some ''user rejected action'', err_code = Some ''ACTION_REJECTED''\<rparr>"

definition flaky :: "nat \<Rightarrow> string outcome \<times> nat" where
  "flaky n = (if n < 2 then Rejected timeout_error else Resolved ''0xabc'', n + 1)"

definition always_down :: "nat \<Rightarrow> string outcome \<times> nat" where
  "always_down n = (Rejected timeout_error, n + 1)"

definition declining :: "nat \<Rightarrow> string outcome \<times> nat" where
  "declining n = (Rejected denied_error, n + 1)"

text \<open>
  The error of EIP-1193 for a request that the user refused in the wallet: code 4001,
  message "User rejected the request.". The code is a number in JavaScript and is written
  here as its digits; \<open>===\<close> never makes it equal to a string of letters.
\<close>

definition refused_error :: js_error where
  "refused_error = \<lparr>err_message = Some ''User rejected the request.'', err_code = Some ''4001''\<rparr>"

definition refusing :: "nat \<Rightarrow> string outcome \<times> nat" where
  "refusing n = (Rejected refused_error, n + 1)"

definition no_wait :: "nat \<Rightarrow> nat \<Rightarrow> nat" where
  "no_wait ms n = n"

lemmas demo_defs = deployer_def factory_def escrowAddr_def alice_def bob_def carol_def usdc_def
  demo_token_def demo_bank_def demo_init_def

lemmas tx_defs = lockA_def lockB_def lockA8_def settleA_def overdrawA_def releaseA_def

lemmas op_defs = lockStake_def transferStake_def releaseStakes_def setChallengeFactory_def
  safeTransfer_def safeTransferFrom_def erc20_move_def release_stake_def execute_def Let_def

lemmas eval_cong = sum.case_cong_weak option.case_cong_weak

lemma demo_init_deployed: "constructor deployer escrowAddr demo_bank factory = Inr demo_init"
  by (simp add: constructor_def demo_defs)

section \<open>Properties of the escrow\<close>

subsection \<open>lockStake\<close>

text \<open>
  Claim C6. A \<open>lockStake\<close> that succeeds was called by the factory with a non-null
  user, a non-null token and a positive amount; it appends exactly one unreleased stake
  with that token and amount to \<open>challengeStakes[challengeId]\<close>, adds the amount to
  \<open>totalLockedByToken[user][token]\<close> (and changes no other entry), and appends the user
  to \<open>challengeParticipants[challengeId]\<close>. Called by the factory with a null user, a
  null token or amount 0 it fails with \<open>InvalidArgument\<close> and changes nothing.
\<close>

theorem lockStake_effect:
  "(lockStake s sender now user tok amt cid = Inr s' \<longrightarrow>
      sender = challengeFactory s \<and> user \<noteq> 0 \<and> tok \<noteq> 0 \<and> 0 < amt \<and>
      challengeStakes s' = (challengeStakes s)
        (cid := challengeStakes s cid @
           [\<lparr>token = tok, amount = amt, lockedAt = now, challengeId = cid, released = False\<rparr>]) \<and>
      unat (totalLockedByToken s' user tok) = unat (totalLockedByToken s user tok) + unat amt \<and>
      (\<forall>u t. (u, t) \<noteq> (user, tok) \<longrightarrow> totalLockedByToken s' u t = totalLockedByToken s u t) \<and>
      challengeParticipants s' =
        (challengeParticipants s)(cid := challengeParticipants s cid @ [user])) \<and>
   (sender = challengeFactory s \<and> (user = 0 \<or> tok = 0 \<or> amt = 0) \<longrightarrow>
      execute s \<lparr>msg_sender = sender, block_timestamp = now,
                 tx_call = LockStake user tok amt cid\<rparr> = (Some InvalidArgument, s))"
proof -
  have ok: "unat (totalLockedByToken s' user tok) = unat (totalLockedByToken s user tok) + unat amt"
    if "lockStake s sender now user tok amt cid = Inr s'"
  proof -
    from that have small: "unat (totalLockedByToken s user tok) + unat amt < 2 ^ 256"
      and new: "totalLockedByToken s' user tok = totalLockedByToken s user tok + amt"
      by (auto simp: lockStake_def Let_def split: if_splits option.splits)
    from small have "unat (totalLockedByToken s user tok + amt)
        = unat (totalLockedByToken s user tok) + unat amt"
      by (simp add: unat_word_ariths)
    with new show ?thesis by simp
  qed
  have rest: "sender = challengeFactory s \<and> user \<noteq> 0 \<and> tok \<noteq> 0 \<and> 0 < amt \<and>
      challengeStakes s' = (challengeStakes s)
        (cid := challengeStakes s cid @
           [\<lparr>token = tok, amount = amt, lockedAt = now, challengeId = cid, released = False\<rparr>]) \<and>
      (\<forall>u t. (u, t) \<noteq> (user, tok) \<longrightarrow> totalLockedByToken s' u t = totalLockedByToken s u t) \<and>
      challengeParticipants s' =
        (challengeParticipants s)(cid := challengeParticipants s cid @ [user])"
    if "lockStake s sender now user tok amt cid = Inr s'"
    using that by (auto simp: lockStake_def Let_def split: if_splits option.splits)
  have bad: "execute s \<lparr>msg_sender = sender, block_timestamp = now,
                 tx_call = LockStake user tok amt cid\<rparr> = (Some InvalidArgument, s)"
    if "sender = challengeFactory s" "user = 0 \<or> tok = 0 \<or> amt = 0"
    using that by (auto simp: execute_def lockStake_def)
  from ok rest bad show ?thesis by blast
qed

theorem lockStake_effect_witness:
  "lockStake demo_init factory 1 alice usdc 100 7 = Inr (run demo_init [lockA]) \<and>
   challengeStakes (run demo_init [lockA]) 7 =
     [\<lparr>token = usdc, amount = 100, lockedAt = 1, challengeId = 7, released = False\<rparr>] \<and>
   unat (totalLockedByToken (run demo_init [lockA]) alice usdc) = 100 \<and>
   totalLockedByToken (run demo_init [lockA]) bob usdc = 0 \<and>
   challengeParticipants (run demo_init [lockA]) 7 = [alice] \<and>
   execute demo_init \<lparr>msg_sender = factory, block_timestamp = 1,
                 tx_call = LockStake alice usdc 0 7\<rparr> = (Some InvalidArgument, demo_init)"
proof -
  have h: "lockStake demo_init factory 1 alice usdc 100 7 = Inr (run demo_init [lockA])"
    by (simp add: op_defs demo_defs lockA_def)
  have f: "factory = challengeFactory demo_init" by (simp add: demo_init_def)
  from lockStake_effect [of demo_init factory 1 alice usdc 100 7 "run demo_init [lockA]"]
    lockStake_effect [where s = demo_init and sender = factory and now = 1 and user = alice
      and tok = usdc and amt = 0 and cid = 7] h f
  show ?thesis
     by (simp add: demo_defs)
qed

subsection \<open>Failed calls\<close>

text \<open>
  Claim C5. \<open>lockStake\<close>, \<open>releaseStakes\<close> and \<open>transferStake\<close> called by anyone
  but the factory, and \<open>setChallengeFactory\<close> called by anyone but the owner, fail with
  \<open>Unauthorized\<close> and leave the whole state as it was; and whatever the error, a
  transaction that fails leaves the whole state as it was.
\<close>

theorem failed_call_changes_nothing:
  "(sender \<noteq> challengeFactory s \<longrightarrow>
      execute s \<lparr>msg_sender = sender, block_timestamp = now,
                 tx_call = LockStake user tok amt cid\<rparr> = (Some Unauthorized, s) \<and>
      execute s \<lparr>msg_sender = sender, block_timestamp = now,
                 tx_call = ReleaseStakes cid users\<rparr> = (Some Unauthorized, s) \<and>
      execute s \<lparr>msg_sender = sender, block_timestamp = now,
                 tx_call = TransferStake src dst tok amt cid\<rparr> = (Some Unauthorized, s)) \<and>
   (sender \<noteq> owner s \<longrightarrow>
      execute s \<lparr>msg_sender = sender, block_timestamp = now,
                 tx_call = SetChallengeFactory newFactory\<rparr> = (Some Unauthorized, s)) \<and>
   (fst (execute s t) \<noteq> None \<longrightarrow> snd (execute s t) = s)"
  by (simp add: execute_def lockStake_def releaseStakes_def transferStake_def
        setChallengeFactory_def split: sum.splits)

theorem failed_call_changes_nothing_witness:
  "alice \<noteq> challengeFactory demo_init \<and> alice \<noteq> owner demo_init \<and>
   execute demo_init \<lparr>msg_sender = alice, block_timestamp = 1,
                 tx_call = LockStake alice usdc 100 7\<rparr> = (Some Unauthorized, demo_init) \<and>
   execute demo_init \<lparr>msg_sender = alice, block_timestamp = 1,
                 tx_call = ReleaseStakes 7 [alice]\<rparr> = (Some Unauthorized, demo_init) \<and>
   execute demo_init \<lparr>msg_sender = alice, block_timestamp = 1,
                 tx_call = TransferStake bob alice usdc 100 7\<rparr> = (Some Unauthorized, demo_init) \<and>
   execute demo_init \<lparr>msg_sender = alice, block_timestamp = 1,
                 tx_call = SetChallengeFactory alice\<rparr> = (Some Unauthorized, demo_init) \<and>
   fst (execute demo_init \<lparr>msg_sender = factory, block_timestamp = 1,
                 tx_call = TransferStake bob alice usdc 100 7\<rparr>) = Some TransferFailed \<and>
   snd (execute demo_init \<lparr>msg_sender = factory, block_timestamp = 1,
                 tx_call = TransferStake bob alice usdc 100 7\<rparr>) = demo_init"
proof -
  have a: "alice \<noteq> challengeFactory demo_init" "alice \<noteq> owner demo_init"
    by (simp_all add: demo_defs)
  have b: "fst (execute demo_init \<lparr>msg_sender = factory, block_timestamp = 1,
                 tx_call = TransferStake bob alice usdc 100 7\<rparr>) = Some TransferFailed"
    by (simp add: op_defs demo_defs)
  from a b
    failed_call_changes_nothing [where s = demo_init and sender = alice and now = 1
      and user = alice and tok = usdc and amt = 100 and cid = 7 and users = "[alice]"
      and src = bob and dst = alice and newFactory = alice
      and t = "\<lparr>msg_sender = factory, block_timestamp = 1,
                 tx_call = TransferStake bob alice usdc 100 7\<rparr>"]
  show ?thesis by simp
qed

subsection \<open>transferStake\<close>

text \<open>
  Claim C7. Whether it succeeds or fails, \<open>transferStake\<close> leaves \<open>challengeStakes\<close>
  and \<open>challengeParticipants\<close> (so every stake record and its flag), the factory and
  the owner unchanged, and every entry of \<open>totalLockedByToken\<close> other than the one of
  \<open>(from, token)\<close>.
\<close>

theorem transferStake_frame:
  "challengeStakes (snd (execute s \<lparr>msg_sender = sender, block_timestamp = now,
       tx_call = TransferStake src dst tok amt cid\<rparr>)) = challengeStakes s \<and>
   challengeParticipants (snd (execute s \<lparr>msg_sender = sender, block_timestamp = now,
       tx_call = TransferStake src dst tok amt cid\<rparr>)) = challengeParticipants s \<and>
   challengeFactory (snd (execute s \<lparr>msg_sender = sender, block_timestamp = now,
       tx_call = TransferStake src dst tok amt cid\<rparr>)) = challengeFactory s \<and>
   owner (snd (execute s \<lparr>msg_sender = sender, block_timestamp = now,
       tx_call = TransferStake src dst tok amt cid\<rparr>)) = owner s \<and>
   (\<forall>u t. (u, t) \<noteq> (src, tok) \<longrightarrow>
      totalLockedByToken (snd (execute s \<lparr>msg_sender = sender, block_timestamp = now,
        tx_call = TransferStake src dst tok amt cid\<rparr>)) u t = totalLockedByToken s u t)"
  by (auto simp: execute_def transferStake_def split: sum.splits option.splits if_splits)

theorem transferStake_frame_witness:
  "fst (execute (run demo_init [lockA, lockB]) settleA) = None \<and>
   (bob, usdc) \<noteq> (alice, usdc) \<and>
   challengeStakes (snd (execute (run demo_init [lockA, lockB]) settleA))
     = challengeStakes (run demo_init [lockA, lockB]) \<and>
   challengeParticipants (snd (execute (run demo_init [lockA, lockB]) settleA))
     = challengeParticipants (run demo_init [lockA, lockB]) \<and>
   totalLockedByToken (snd (execute (run demo_init [lockA, lockB]) settleA)) bob usdc
     = totalLockedByToken (run demo_init [lockA, lockB]) bob usdc \<and>
   totalLockedByToken (snd (execute (run demo_init [lockA, lockB]) settleA)) alice usdc = 0"
proof -
  have ok: "fst (execute (run demo_init [lockA, lockB]) settleA) = None"
    by (simp add: op_defs demo_defs tx_defs)
  have ne: "(bob, usdc) \<noteq> (alice, usdc)"
    by (simp add: demo_defs)
  have z: "totalLockedByToken (snd (execute (run demo_init [lockA, lockB]) settleA)) alice usdc = 0"
    by (simp add: op_defs demo_defs tx_defs)
  from ok ne z
    transferStake_frame [where s = "run demo_init [lockA, lockB]" and sender = factory and now = 4
      and src = alice and dst = carol and tok = usdc and amt = 100 and cid = 7]
  show ?thesis unfolding settleA_def by blast
qed

text \<open>
  Claim C3, as the specification states it, names the error of an overdraw: with
  \<open>amount\<close> above \<open>totalLockedByToken[from][token]\<close> the call is to fail with
  \<open>TransferFailed\<close> or \<open>InvalidArgument\<close>. The escrow below holds 150 of the token and
  alice's locked balance is 100; a transfer of 150 from her balance passes the argument
  checks and the token push, and reverts in the checked subtraction.
\<close>

theorem transferStake_overdraw_panics:
  "totalLockedByToken (run demo_init [lockA, lockB]) alice usdc < 150 \<and>
   transferStake (run demo_init [lockA, lockB]) factory alice carol usdc 150 7
     = Inl ArithmeticPanic \<and>
   Inl ArithmeticPanic \<noteq> (Inl TransferFailed :: error + escrow) \<and>
   Inl ArithmeticPanic \<noteq> (Inl InvalidArgument :: error + escrow)"
  by (simp add: op_defs demo_defs tx_defs)

text \<open>
  Claim C3, amended. A \<open>transferStake\<close> that succeeds decreases
  \<open>totalLockedByToken[from][token]\<close> by exactly \<open>amount\<close>, which was at most the
  balance. When \<open>amount\<close> exceeds the balance the call fails and changes nothing; with
  the factory calling and non-null addresses the error is \<open>TransferFailed\<close> when the
  token push is rejected and the arithmetic panic of the checked subtraction otherwise.
\<close>

theorem transferStake_debit:
  "(transferStake s sender src dst tok amt cid = Inr s' \<longrightarrow>
      amt \<le> totalLockedByToken s src tok \<and>
      unat (totalLockedByToken s' src tok) + unat amt = unat (totalLockedByToken s src tok)) \<and>
   (totalLockedByToken s src tok < amt \<longrightarrow>
      (\<exists>e. execute s \<lparr>msg_sender = sender, block_timestamp = now,
                tx_call = TransferStake src dst tok amt cid\<rparr> = (Some e, s)) \<and>
      (sender = challengeFactory s \<and> src \<noteq> 0 \<and> dst \<noteq> 0 \<and> tok \<noteq> 0 \<longrightarrow>
         transferStake s sender src dst tok amt cid =
           Inl (if safeTransfer (bank s) tok (self s) dst amt = None
                then TransferFailed else ArithmeticPanic)))"
proof -
  have ok: "amt \<le> totalLockedByToken s src tok \<and>
      unat (totalLockedByToken s' src tok) + unat amt = unat (totalLockedByToken s src tok)"
    if "transferStake s sender src dst tok amt cid = Inr s'"
  proof -
    from that have le: "amt \<le> totalLockedByToken s src tok"
      and new: "totalLockedByToken s' src tok = totalLockedByToken s src tok - amt"
      by (auto simp: transferStake_def split: if_splits option.splits)
    from le have "unat (totalLockedByToken s src tok - amt)
        = unat (totalLockedByToken s src tok) - unat amt"
      by (simp add: unat_sub)
    moreover from le have "unat amt \<le> unat (totalLockedByToken s src tok)"
      by (simp add: word_le_nat_alt)
    ultimately show ?thesis using le new by simp
  qed
  have fails: "\<exists>e. execute s \<lparr>msg_sender = sender, block_timestamp = now,
                tx_call = TransferStake src dst tok amt cid\<rparr> = (Some e, s)"
    if "totalLockedByToken s src tok < amt"
    using that by (auto simp: execute_def transferStake_def split: option.splits)
  have kind: "transferStake s sender src dst tok amt cid =
           Inl (if safeTransfer (bank s) tok (self s) dst amt = None
                then TransferFailed else ArithmeticPanic)"
    if "totalLockedByToken s src tok < amt" "sender = challengeFactory s" "src \<noteq> 0" "dst \<noteq> 0"
      "tok \<noteq> 0"
  proof -
    from that(1) have "0 < amt"
      by (cases "amt = 0") (simp_all add: word_gt_0)
    with that show ?thesis
      by (auto simp: transferStake_def split: option.splits)
  qed
  from ok fails kind show ?thesis by blast
qed

theorem transferStake_debit_witness:
  "transferStake (run demo_init [lockA, lockB]) factory alice carol usdc 100 7
     = Inr (run demo_init [lockA, lockB, settleA]) \<and>
   unat (totalLockedByToken (run demo_init [lockA, lockB, settleA]) alice usdc) + 100
     = unat (totalLockedByToken (run demo_init [lockA, lockB]) alice usdc) \<and>
   totalLockedByToken (run demo_init [lockA, lockB]) alice usdc < 150 \<and>
   execute (run demo_init [lockA, lockB]) overdrawA
     = (Some ArithmeticPanic, run demo_init [lockA, lockB])"
proof -
  have ok: "transferStake (run demo_init [lockA, lockB]) factory alice carol usdc 100 7
     = Inr (run demo_init [lockA, lockB, settleA])"
    by (simp add: op_defs demo_defs tx_defs)
  have lt: "totalLockedByToken (run demo_init [lockA, lockB]) alice usdc < 150"
    by (simp add: op_defs demo_defs tx_defs)
  have pre: "factory = challengeFactory (run demo_init [lockA, lockB])" "alice \<noteq> 0" "carol \<noteq> 0"
    "usdc \<noteq> 0" "safeTransfer (bank (run demo_init [lockA, lockB])) usdc
       (self (run demo_init [lockA, lockB])) carol 150 \<noteq> None"
    by (simp_all add: op_defs demo_defs tx_defs)
  from ok
    transferStake_debit [where s = "run demo_init [lockA, lockB]" and sender = factory
      and src = alice and dst = carol and tok = usdc and amt = 100 and cid = 7
      and s' = "run demo_init [lockA, lockB, settleA]"]
  have debit: "unat (totalLockedByToken (run demo_init [lockA, lockB, settleA]) alice usdc) + 100
     = unat (totalLockedByToken (run demo_init [lockA, lockB]) alice usdc)"
    by simp
  from lt pre
    transferStake_debit [where s = "run demo_init [lockA, lockB]" and sender = factory
      and src = alice and dst = carol and tok = usdc and amt = 150 and cid = 7 and now = 4]
  have "transferStake (run demo_init [lockA, lockB]) factory alice carol usdc 150 7
     = Inl ArithmeticPanic"
    by simp
  then have panic: "execute (run demo_init [lockA, lockB]) overdrawA
     = (Some ArithmeticPanic, run demo_init [lockA, lockB])"
    by (simp add: execute_def overdrawA_def)
  from ok debit lt panic show ?thesis by blast
qed

subsection \<open>releaseStakes\<close>

lemma release_stake_skip:
  "released (challengeStakes s cid ! j) \<Longrightarrow> release_stake cid user j s = Inr s"
  by (simp add: release_stake_def)

lemma release_stake_kept:
  assumes "release_stake cid user j s = Inr s'"
  shows "challengeFactory s' = challengeFactory s"
    and "owner s' = owner s"
    and "self s' = self s"
    and "challengeParticipants s' = challengeParticipants s"
    and "length (challengeStakes s' c) = length (challengeStakes s c)"
  using assms
  by (auto simp: release_stake_def Let_def split: if_splits option.splits)

lemma release_stake_flags:
  assumes "release_stake cid user j s = Inr s'" and "j < length (challengeStakes s cid)"
  shows "released (challengeStakes s' cid ! j)"
    and "released (challengeStakes s cid ! i) \<Longrightarrow> released (challengeStakes s' cid ! i)"
  using assms
  by (auto simp: release_stake_def Let_def nth_list_update split: if_splits option.splits)

lemma release_from_flags:
  "release_from cid user j s = Inr s' \<Longrightarrow>
     length (challengeStakes s' cid) = length (challengeStakes s cid) \<and>
     challengeFactory s' = challengeFactory s \<and>
     (\<forall>i. released (challengeStakes s cid ! i) \<longrightarrow> released (challengeStakes s' cid ! i)) \<and>
     (\<forall>i. j \<le> i \<and> i < length (challengeStakes s cid) \<longrightarrow> released (challengeStakes s' cid ! i))"
proof (induction cid user j s rule: release_from.induct)
  case (1 cid user j s)
  show ?case
  proof (cases "j < length (challengeStakes s cid)")
    case False
    with "1.prems" show ?thesis by (auto simp: release_from.simps)
  next
    case True
    with "1.prems" obtain s1 where
      one: "release_stake cid user j s = Inr s1" and rest: "release_from cid user (j + 1) s1 = Inr s'"
      by (auto simp: release_from.simps [of cid user j s] split: sum.splits)
    note ih = "1.IH" [OF True one rest]
    note kept = release_stake_kept [OF one]
    note flags = release_stake_flags [OF one True]
    have "released (challengeStakes s' cid ! i)" if "j \<le> i" "i < length (challengeStakes s cid)" for i
    proof (cases "i = j")
      case True
      with flags(1) ih show ?thesis by blast
    next
      case False
      with that have "j + 1 \<le> i" by simp
      with that ih kept(5) [of cid] show ?thesis by simp
    qed
    moreover have "released (challengeStakes s' cid ! i)" if "released (challengeStakes s cid ! i)" for i
      using that flags(2) ih by blast
    ultimately show ?thesis using ih kept by simp
  qed
qed

lemma release_from_noop:
  "(\<forall>i. j \<le> i \<and> i < length (challengeStakes s cid) \<longrightarrow> released (challengeStakes s cid ! i)) \<Longrightarrow>
     release_from cid user j s = Inr s"
proof (induction cid user j s rule: release_from.induct)
  case (1 cid user j s)
  show ?case
  proof (cases "j < length (challengeStakes s cid)")
    case False
    then show ?thesis by (simp add: release_from.simps)
  next
    case True
    with "1.prems" have "released (challengeStakes s cid ! j)" by simp
    then have one: "release_stake cid user j s = Inr s" by (rule release_stake_skip)
    from "1.prems" have "\<forall>i. j + 1 \<le> i \<and> i < length (challengeStakes s cid) \<longrightarrow>
        released (challengeStakes s cid ! i)" by simp
    with "1.IH" [OF True one] have "release_from cid user (j + 1) s = Inr s" by blast
    with True one show ?thesis by (simp add: release_from.simps [of cid user j s])
  qed
qed

lemma release_users_noop:
  "(\<forall>i < length (challengeStakes s cid). released (challengeStakes s cid ! i)) \<Longrightarrow>
     release_users cid users s = Inr s"
  by (induction users) (simp_all add: release_from_noop)

lemma release_users_flags:
  assumes "release_users cid users s = Inr s'"
  shows "challengeFactory s' = challengeFactory s"
    and "users \<noteq> [] \<Longrightarrow> \<forall>i < length (challengeStakes s' cid). released (challengeStakes s' cid ! i)"
proof -
  show "users \<noteq> [] \<Longrightarrow> \<forall>i < length (challengeStakes s' cid). released (challengeStakes s' cid ! i)"
  proof -
    assume "users \<noteq> []"
    then obtain u us where users: "users = u # us" by (cases users) auto
    with assms obtain s1 where first: "release_from cid u 0 s = Inr s1"
      and rest: "release_users cid us s1 = Inr s'"
      by (auto split: sum.splits)
    from release_from_flags [OF first]
    have all: "\<forall>i < length (challengeStakes s1 cid). released (challengeStakes s1 cid ! i)"
      by simp
    with release_users_noop [of s1 cid us] rest have "s' = s1" by simp
    with all show ?thesis by simp
  qed
  from assms show "challengeFactory s' = challengeFactory s"
  proof (induction users arbitrary: s)
    case Nil
    then show ?case by simp
  next
    case (Cons u us)
    then obtain s1 where first: "release_from cid u 0 s = Inr s1"
      and rest: "release_users cid us s1 = Inr s'"
      by (auto split: sum.splits)
    from Cons.IH [OF rest] release_from_flags [OF first] show ?case by simp
  qed
qed

text \<open>
  Claim C4. After a \<open>releaseStakes\<close> that succeeded, the same call again succeeds and
  returns the state as it is: no token moves, no event is emitted, no balance or flag
  changes. Stakes whose flag is set are skipped: where every stake of the challenge is
  released, \<open>releaseStakes\<close> by the factory, for any users, returns the state as it is,
  and the loop body leaves the state as it is at every stake that is released.
\<close>

theorem releaseStakes_idempotent:
  "(releaseStakes s sender cid users = Inr s' \<longrightarrow> releaseStakes s' sender cid users = Inr s') \<and>
   (sender = challengeFactory s \<and> (\<forall>st \<in> set (challengeStakes s cid). released st) \<longrightarrow>
      releaseStakes s sender cid users = Inr s) \<and>
   (j < length (challengeStakes s cid) \<and> released (challengeStakes s cid ! j) \<longrightarrow>
      release_stake cid user j s = Inr s)"
proof -
  have one: "release_stake cid user j s = Inr s" if "released (challengeStakes s cid ! j)"
    using that by (rule release_stake_skip)
  have skip: "releaseStakes s sender cid users = Inr s"
    if "sender = challengeFactory s" "\<forall>st \<in> set (challengeStakes s cid). released st"
  proof -
    from that(2) have "\<forall>i < length (challengeStakes s cid). released (challengeStakes s cid ! i)"
      by simp
    with that(1) show ?thesis by (simp add: releaseStakes_def release_users_noop)
  qed
  have twice: "releaseStakes s' sender cid users = Inr s'"
    if "releaseStakes s sender cid users = Inr s'"
  proof -
    from that have auth: "sender = challengeFactory s" and run: "release_users cid users s = Inr s'"
      by (auto simp: releaseStakes_def split: if_splits)
    from release_users_flags(1) [OF run] auth have auth': "sender = challengeFactory s'" by simp
    show ?thesis
    proof (cases users)
      case Nil
      with auth' show ?thesis by (simp add: releaseStakes_def)
    next
      case (Cons u us)
      with release_users_flags(2) [OF run]
      have "\<forall>i < length (challengeStakes s' cid). released (challengeStakes s' cid ! i)" by simp
      with auth' show ?thesis by (simp add: releaseStakes_def release_users_noop)
    qed
  qed
  from skip twice one show ?thesis by blast
qed

theorem releaseStakes_idempotent_witness:
  "releaseStakes (run demo_init [lockA]) factory 7 [alice] = Inr (run demo_init [lockA, releaseA]) \<and>
   releaseStakes (run demo_init [lockA, releaseA]) factory 7 [alice]
     = Inr (run demo_init [lockA, releaseA]) \<and>
   events (run demo_init [lockA, releaseA, releaseA]) = events (run demo_init [lockA, releaseA]) \<and>
   bank (run demo_init [lockA, releaseA, releaseA]) = bank (run demo_init [lockA, releaseA]) \<and>
   map released (challengeStakes (run demo_init [lockA, releaseA]) 7) = [True] \<and>
   releaseStakes (run demo_init [lockA, releaseA]) factory 7 [bob]
     = Inr (run demo_init [lockA, releaseA]) \<and>
   release_stake 7 bob 0 (run demo_init [lockA, releaseA]) = Inr (run demo_init [lockA, releaseA])"
proof -
  have first: "releaseStakes (run demo_init [lockA]) factory 7 [alice]
      = Inr (run demo_init [lockA, releaseA])"
    by (simp add: op_defs demo_defs tx_defs release_from.simps cong: eval_cong)
  from first releaseStakes_idempotent [where s = "run demo_init [lockA]" and sender = factory
      and cid = 7 and users = "[alice]" and s' = "run demo_init [lockA, releaseA]"]
  have second: "releaseStakes (run demo_init [lockA, releaseA]) factory 7 [alice]
     = Inr (run demo_init [lockA, releaseA])"
    by blast
  then have "run demo_init [lockA, releaseA, releaseA] = run demo_init [lockA, releaseA]"
    by (simp add: execute_def releaseA_def)
  moreover have flags: "map released (challengeStakes (run demo_init [lockA, releaseA]) 7) = [True]"
    by (simp add: op_defs demo_defs tx_defs release_from.simps cong: eval_cong)
  moreover have "releaseStakes (run demo_init [lockA, releaseA]) factory 7 [bob]
     = Inr (run demo_init [lockA, releaseA])"
  proof -
    have "factory = challengeFactory (run demo_init [lockA, releaseA])"
      by (simp add: op_defs demo_defs tx_defs release_from.simps cong: eval_cong)
    moreover from flags
    have "\<forall>st \<in> set (challengeStakes (run demo_init [lockA, releaseA]) 7). released st"
    proof -
      from flags have "set (map released (challengeStakes (run demo_init [lockA, releaseA]) 7)) = {True}"
        by simp
      then show ?thesis by auto
    qed
    ultimately show ?thesis
      using releaseStakes_idempotent [where s = "run demo_init [lockA, releaseA]"
        and sender = factory and cid = 7 and users = "[bob]"]
      by blast
  qed
  moreover have "release_stake 7 bob 0 (run demo_init [lockA, releaseA])
      = Inr (run demo_init [lockA, releaseA])"
  proof -
    from flags have "0 < length (challengeStakes (run demo_init [lockA, releaseA]) 7) \<and>
        released (challengeStakes (run demo_init [lockA, releaseA]) 7 ! 0)"
      by (cases "challengeStakes (run demo_init [lockA, releaseA]) 7") simp_all
    with releaseStakes_idempotent [where s = "run demo_init [lockA, releaseA]" and cid = 7
        and j = 0 and user = bob]
    show ?thesis by blast
  qed
  ultimately show ?thesis using first second by simp
qed

subsection \<open>Participants and stakes\<close>

lemma as_locked_update: "map as_locked (xs[j := (xs ! j)\<lparr>released := True\<rparr>]) = map as_locked xs"
proof (cases "j < length xs")
  case True
  then show ?thesis
    by (auto simp: list_eq_iff_nth_eq nth_list_update as_locked_def)
next
  case False
  then have "xs[j := (xs ! j)\<lparr>released := True\<rparr>] = xs"
    by (simp add: list_update_beyond)
  then show ?thesis by simp
qed

lemma release_stake_static:
  assumes "release_stake cid user j s = Inr s'"
  shows "map as_locked (challengeStakes s' c) = map as_locked (challengeStakes s c)"
  using assms
  by (auto simp: release_stake_def Let_def as_locked_update split: if_splits option.splits)

lemma release_from_static:
  "release_from cid user j s = Inr s' \<Longrightarrow>
     challengeParticipants s' = challengeParticipants s \<and>
     map as_locked (challengeStakes s' c) = map as_locked (challengeStakes s c)"
proof (induction cid user j s rule: release_from.induct)
  case (1 cid user j s)
  show ?case
  proof (cases "j < length (challengeStakes s cid)")
    case False
    with "1.prems" show ?thesis by (auto simp: release_from.simps)
  next
    case True
    with "1.prems" obtain s1 where
      one: "release_stake cid user j s = Inr s1" and rest: "release_from cid user (j + 1) s1 = Inr s'"
      by (auto simp: release_from.simps [of cid user j s] split: sum.splits)
    from "1.IH" [OF True one rest] release_stake_kept(4) [OF one] release_stake_static [OF one]
    show ?thesis by simp
  qed
qed

lemma release_users_static:
  "release_users cid users s = Inr s' \<Longrightarrow>
     challengeParticipants s' = challengeParticipants s \<and>
     map as_locked (challengeStakes s' c) = map as_locked (challengeStakes s c)"
proof (induction users arbitrary: s)
  case Nil
  then show ?case by simp
next
  case (Cons u us)
  then obtain s1 where first: "release_from cid u 0 s = Inr s1"
    and rest: "release_users cid us s1 = Inr s'"
    by (auto split: sum.splits)
  from Cons.IH [OF rest] release_from_static [OF first] show ?case by simp
qed

lemma execute_deposit:
  "challengeParticipants (snd (execute s t)) cid
     = challengeParticipants s cid @ map fst (deposit_of s t cid) \<and>
   map as_locked (challengeStakes (snd (execute s t)) cid)
     = map as_locked (challengeStakes s cid) @ map snd (deposit_of s t cid)"
proof (cases "tx_call t")
  case (LockStake user tok amt c)
  then show ?thesis
    by (auto simp: execute_def lockStake_def Let_def as_locked_def
          split: sum.splits if_splits option.splits)
next
  case (ReleaseStakes c users)
  then show ?thesis
    by (auto simp: execute_def releaseStakes_def split: sum.splits if_splits
          dest: release_users_static)
next
  case (TransferStake src dst tok amt c)
  then show ?thesis
    by (auto simp: execute_def transferStake_def split: sum.splits if_splits option.splits)
next
  case (SetChallengeFactory nf)
  then show ?thesis
    by (auto simp: execute_def setChallengeFactory_def split: sum.splits if_splits)
qed

lemma run_deposits:
  "challengeParticipants (run s txs) cid
     = challengeParticipants s cid @ map fst (deposits s txs cid) \<and>
   map as_locked (challengeStakes (run s txs) cid)
     = map as_locked (challengeStakes s cid) @ map snd (deposits s txs cid)"
proof (induction txs arbitrary: s)
  case Nil
  show ?case by simp
next
  case (Cons t ts)
  from Cons.IH [of "snd (execute s t)"] execute_deposit [of s t cid]
  show ?case by (simp del: deposit_of.simps)
qed

text \<open>
  Claim C10. In every state reached from the constructor by any transactions, and for
  every challenge, \<open>challengeStakes[id]\<close> and \<open>challengeParticipants[id]\<close> have the same
  length, the participants are the depositors of the successful \<open>lockStake\<close> calls on
  the challenge, in order, and the stakes are the records those calls created, up to the
  released flag: the participant at index \<open>i\<close> deposited the stake at index \<open>i\<close>.
\<close>

theorem participants_parallel_to_stakes:
  "constructor sender this bk fac = Inr s0 \<Longrightarrow>
     length (challengeStakes (run s0 txs) cid) = length (challengeParticipants (run s0 txs) cid) \<and>
     challengeParticipants (run s0 txs) cid = map fst (deposits s0 txs cid) \<and>
     map as_locked (challengeStakes (run s0 txs) cid) = map snd (deposits s0 txs cid)"
proof -
  assume "constructor sender this bk fac = Inr s0"
  then have empty: "challengeParticipants s0 cid = []" "challengeStakes s0 cid = []"
    by (auto simp: constructor_def split: if_splits)
  with run_deposits [of s0 txs cid]
  have ps: "challengeParticipants (run s0 txs) cid = map fst (deposits s0 txs cid)"
    and sts: "map as_locked (challengeStakes (run s0 txs) cid) = map snd (deposits s0 txs cid)"
    by simp_all
  from sts have "length (challengeStakes (run s0 txs) cid) = length (deposits s0 txs cid)"
    by (metis length_map)
  moreover from ps have "length (challengeParticipants (run s0 txs) cid) = length (deposits s0 txs cid)"
    by simp
  ultimately show ?thesis using ps sts by simp
qed

theorem participants_parallel_to_stakes_witness:
  "constructor deployer escrowAddr demo_bank factory = Inr demo_init \<and>
   deposits demo_init [lockA, lockB, lockA8, releaseA] 7 =
     [(alice, \<lparr>token = usdc, amount = 100, lockedAt = 1, challengeId = 7, released = False\<rparr>),
      (bob, \<lparr>token = usdc, amount = 50, lockedAt = 2, challengeId = 7, released = False\<rparr>)] \<and>
   challengeParticipants (run demo_init [lockA, lockB, lockA8, releaseA]) 7 = [alice, bob] \<and>
   map as_locked (challengeStakes (run demo_init [lockA, lockB, lockA8, releaseA]) 7) =
     [\<lparr>token = usdc, amount = 100, lockedAt = 1, challengeId = 7, released = False\<rparr>,
      \<lparr>token = usdc, amount = 50, lockedAt = 2, challengeId = 7, released = False\<rparr>] \<and>
   length (challengeStakes (run demo_init [lockA, lockB, lockA8, releaseA]) 7) = 2"
proof -
  have d: "deposits demo_init [lockA, lockB, lockA8, releaseA] 7 =
     [(alice, \<lparr>token = usdc, amount = 100, lockedAt = 1, challengeId = 7, released = False\<rparr>),
      (bob, \<lparr>token = usdc, amount = 50, lockedAt = 2, challengeId = 7, released = False\<rparr>)]"
    by (simp add: op_defs demo_defs tx_defs release_from.simps cong: eval_cong)
  note inst = participants_parallel_to_stakes [OF demo_init_deployed,
      of "[lockA, lockB, lockA8, releaseA]" 7]
  from inst [unfolded d] d demo_init_deployed
  show ?thesis by (simp del: run.simps deposits.simps deposit_of.simps)
qed

subsection \<open>The locked balance and the unreleased stakes\<close>

lemma owned_unreleased_snoc:
  "length ps = length sts \<Longrightarrow>
     owned_unreleased u t (ps @ [p]) (sts @ [st]) =
       owned_unreleased u t ps sts +
       (if p = u \<and> token st = t \<and> \<not> released st then unat (amount st) else 0)"
  by (simp add: owned_unreleased_def)

lemma sum_list_change_one:
  fixes f g :: "'a \<Rightarrow> nat"
  shows "distinct xs \<Longrightarrow> c \<in> set xs \<Longrightarrow> (\<forall>x. x \<noteq> c \<longrightarrow> f x = g x) \<Longrightarrow> f c = g c + d \<Longrightarrow>
     sum_list (map f xs) = sum_list (map g xs) + d"
proof (induction xs)
  case Nil
  then show ?case by simp
next
  case (Cons x xs)
  show ?case
  proof (cases "x = c")
    case True
    with Cons.prems have "c \<notin> set xs" by simp
    with Cons.prems(3) have "map f xs = map g xs" by auto
    then have "sum_list (map f xs) = sum_list (map g xs)" by (simp only:)
    with True Cons.prems(4) show ?thesis by simp
  next
    case False
    with Cons.prems have "c \<in> set xs" "distinct xs" "f x = g x" by auto
    with Cons.IH Cons.prems(3,4) show ?thesis by simp
  qed
qed

lemma lockStake_balanced:
  assumes ok: "lockStake s sender now user tok amt cid = Inr s'" and bal: "balanced s"
  shows "balanced s'"
proof -
  let ?new = "\<lparr>token = tok, amount = amt, lockedAt = now, challengeId = cid, released = False\<rparr>"
  from ok have stakes: "challengeStakes s' = (challengeStakes s)(cid := challengeStakes s cid @ [?new])"
    and parts: "challengeParticipants s' =
        (challengeParticipants s)(cid := challengeParticipants s cid @ [user])"
    and small: "unat (totalLockedByToken s user tok) + unat amt < 2 ^ 256"
    and total: "totalLockedByToken s' = (totalLockedByToken s)
        (user := (totalLockedByToken s user)(tok := totalLockedByToken s user tok + amt))"
    by (auto simp: lockStake_def Let_def split: if_splits option.splits)
  from bal have len: "length (challengeStakes s c) = length (challengeParticipants s c)" for c
    by (simp add: balanced_def)
  have len': "length (challengeStakes s' c) = length (challengeParticipants s' c)" for c
    using len [of c] len [of cid] by (auto simp: stakes parts)
  have sum': "unat (totalLockedByToken s' u t) = unreleased_sum s' cids u t"
    if d: "distinct cids" and cover: "\<forall>c. challengeStakes s' c \<noteq> [] \<longrightarrow> c \<in> set cids"
    for cids u t
  proof -
    let ?d = "if user = u \<and> tok = t then unat amt else 0"
    let ?f = "\<lambda>s c. owned_unreleased u t (challengeParticipants s c) (challengeStakes s c)"
    from cover have mem: "cid \<in> set cids" by (simp add: stakes)
    from cover have cover0: "\<forall>c. challengeStakes s c \<noteq> [] \<longrightarrow> c \<in> set cids"
      by (auto simp: stakes split: if_splits)
    with bal d have old: "unat (totalLockedByToken s u t) = unreleased_sum s cids u t"
      by (simp add: balanced_def)
    have other: "\<forall>c. c \<noteq> cid \<longrightarrow> ?f s' c = ?f s c"
      by (simp add: stakes parts)
    have this_one: "?f s' cid = ?f s cid + ?d"
      using len [of cid] by (simp add: stakes parts owned_unreleased_snoc)
    from sum_list_change_one [OF d mem other this_one]
    have "unreleased_sum s' cids u t = unreleased_sum s cids u t + ?d"
      by (simp add: unreleased_sum_def)
    moreover have "unat (totalLockedByToken s' u t) = unat (totalLockedByToken s u t) + ?d"
    proof (cases "user = u \<and> tok = t")
      case True
      with small have "unat (totalLockedByToken s u t + amt) = unat (totalLockedByToken s u t) + unat amt"
        by (simp add: unat_word_ariths)
      with True show ?thesis by (simp add: total)
    next
      case False
      then show ?thesis by (auto simp: total)
    qed
    ultimately show ?thesis using old by simp
  qed
  from len' sum' show ?thesis unfolding balanced_def by blast
qed

lemma constructor_balanced:
  assumes "constructor sender this bk fac = Inr s0"
  shows "balanced s0"
proof -
  from assms have empty: "challengeStakes s0 = (\<lambda>_. [])" "challengeParticipants s0 = (\<lambda>_. [])"
    "totalLockedByToken s0 = (\<lambda>_ _. 0)"
    by (auto simp: constructor_def split: if_splits)
  have "unreleased_sum s0 cids u t = 0" for cids u t
    by (simp add: unreleased_sum_def owned_unreleased_def empty)
  with empty show ?thesis by (simp add: balanced_def)
qed

lemma run_locks_balanced:
  "balanced s \<Longrightarrow> \<forall>t \<in> set txs. is_LockStake (tx_call t) \<Longrightarrow> balanced (run s txs)"
proof (induction txs arbitrary: s)
  case Nil
  then show ?case by simp
next
  case (Cons t ts)
  from Cons.prems(2) obtain user tok amt cid where call: "tx_call t = LockStake user tok amt cid"
    by (cases "tx_call t") auto
  have "balanced (snd (execute s t))"
  proof (cases "lockStake s (msg_sender t) (block_timestamp t) user tok amt cid")
    case (Inl e)
    with call Cons.prems(1) show ?thesis by (simp add: execute_def)
  next
    case (Inr s')
    with lockStake_balanced [OF Inr Cons.prems(1)] call show ?thesis by (simp add: execute_def)
  qed
  with Cons.IH [of "snd (execute s t)"] Cons.prems(2) show ?case by simp
qed

text \<open>
  Claim C2, as the specification states it, holds after any sequence of \<open>lockStake\<close>,
  \<open>releaseStakes\<close> and \<open>transferStake\<close> calls. After alice's deposit of 100 into
  challenge 7 and a \<open>transferStake\<close> of 100 from her balance, her locked balance is 0,
  while her stake in challenge 7 is still unreleased: \<open>transferStake\<close> touches no
  stake record.
\<close>

theorem transfer_breaks_locked_sum:
  "unat (totalLockedByToken (run demo_init [lockA, settleA]) alice usdc) = 0 \<and>
   unreleased_sum (run demo_init [lockA, settleA]) [7] alice usdc = 100 \<and>
   unat (totalLockedByToken (run demo_init [lockA, settleA]) alice usdc)
     \<noteq> unreleased_sum (run demo_init [lockA, settleA]) [7] alice usdc"
  by (simp add: op_defs demo_defs tx_defs unreleased_sum_def owned_unreleased_def)

text \<open>
  Claim C2, amended. After any sequence of \<open>lockStake\<close> calls on a freshly deployed
  escrow, whether they succeed or fail, \<open>totalLockedByToken[u][t]\<close> is the sum of the
  amounts of the unreleased stakes of token \<open>t\<close> that \<open>u\<close> deposited, taken over all
  challenges (any duplicate-free list of challenges that contains every challenge with a
  stake).
\<close>

theorem locked_balance_is_unreleased_sum:
  "constructor sender this bk fac = Inr s0 \<Longrightarrow>
   \<forall>t \<in> set txs. is_LockStake (tx_call t) \<Longrightarrow>
   distinct cids \<Longrightarrow>
   \<forall>cid. challengeStakes (run s0 txs) cid \<noteq> [] \<longrightarrow> cid \<in> set cids \<Longrightarrow>
     unat (totalLockedByToken (run s0 txs) u t) = unreleased_sum (run s0 txs) cids u t"
proof -
  assume init: "constructor sender this bk fac = Inr s0"
    and locks: "\<forall>t \<in> set txs. is_LockStake (tx_call t)"
    and d: "distinct cids"
    and cover: "\<forall>cid. challengeStakes (run s0 txs) cid \<noteq> [] \<longrightarrow> cid \<in> set cids"
  from run_locks_balanced [OF constructor_balanced [OF init] locks]
  have "balanced (run s0 txs)" .
  with d cover show ?thesis unfolding balanced_def by blast
qed

theorem locked_balance_is_unreleased_sum_witness:
  "unat (totalLockedByToken (run demo_init [lockA, lockB, lockA8]) alice usdc)
     = unreleased_sum (run demo_init [lockA, lockB, lockA8]) [7, 8] alice usdc \<and>
   unreleased_sum (run demo_init [lockA, lockB, lockA8]) [7, 8] alice usdc = 150"
proof -
  have locks: "\<forall>t \<in> set [lockA, lockB, lockA8]. is_LockStake (tx_call t)"
    by (simp add: tx_defs)
  have d: "distinct [7, 8 :: uint256]" by simp
  have cover: "\<forall>cid. challengeStakes (run demo_init [lockA, lockB, lockA8]) cid \<noteq> []
      \<longrightarrow> cid \<in> set [7, 8]"
    by (simp add: op_defs demo_defs tx_defs)
  have v: "unreleased_sum (run demo_init [lockA, lockB, lockA8]) [7, 8] alice usdc = 150"
    by (simp add: op_defs demo_defs tx_defs unreleased_sum_def owned_unreleased_def)
  from locked_balance_is_unreleased_sum [OF demo_init_deployed locks d cover, of alice usdc] v
  show ?thesis by simp
qed

subsection \<open>Who is paid by releaseStakes\<close>

text \<open>
  Claim C1 says that \<open>releaseStakes(challengeId, users)\<close> pays each unreleased stake
  of a listed user back to its depositor and does nothing for a listed address without a
  stake. The inner loop tests only the released flag. Alice deposited 100 and bob 50 into
  challenge 7, and alice 50 into challenge 8; \<open>releaseStakes(7, [alice])\<close> pays both
  stakes of challenge 7 to alice, takes 150 from her locked balance, leaves bob's at 50
  and flags his stake as released. With only the two deposits into challenge 7,
  \<open>releaseStakes(7, [carol])\<close>, for an address without a stake, reverts in the checked
  subtraction.
\<close>

theorem releaseStakes_pays_listed_user:
  "challengeParticipants (run demo_init [lockA, lockB, lockA8]) 7 = [alice, bob] \<and>
   map amount (challengeStakes (run demo_init [lockA, lockB, lockA8]) 7) = [100, 50] \<and>
   fst (execute (run demo_init [lockA, lockB, lockA8]) releaseA) = None \<and>
   events (run demo_init [lockA, lockB, lockA8, releaseA]) =
     events (run demo_init [lockA, lockB, lockA8]) @
       [StakeReleased alice usdc 100 7, StakeReleased alice usdc 50 7] \<and>
   map released (challengeStakes (run demo_init [lockA, lockB, lockA8, releaseA]) 7)
     = [True, True] \<and>
   map_option (\<lambda>t. (balanceOf t alice, balanceOf t bob))
     (bank (run demo_init [lockA, lockB, lockA8, releaseA]) usdc) = Some (150, 0) \<and>
   totalLockedByToken (run demo_init [lockA, lockB, lockA8, releaseA]) alice usdc = 0 \<and>
   totalLockedByToken (run demo_init [lockA, lockB, lockA8, releaseA]) bob usdc = 50 \<and>
   map released (challengeStakes (run demo_init [lockA, lockB, lockA8, releaseA]) 8) = [False] \<and>
   execute (run demo_init [lockA, lockB])
       \<lparr>msg_sender = factory, block_timestamp = 5, tx_call = ReleaseStakes 7 [carol]\<rparr>
     = (Some ArithmeticPanic, run demo_init [lockA, lockB])"
  by (simp add: op_defs demo_defs tx_defs release_from.simps cong: eval_cong)

section \<open>Properties of the retry loop\<close>

lemma timeout_not_cancel: "\<not> isUserCancellation timeout_error"
  by (simp add: isUserCancellation_def timeout_error_def)

lemma denied_cancel: "isUserCancellation denied_error"
  by (simp add: isUserCancellation_def denied_error_def)

lemma rejected_cancel: "isUserCancellation rejected_error"
  by (simp add: isUserCancellation_def rejected_error_def)

lemma refused_not_cancel: "\<not> isUserCancellation refused_error"
  by (simp add: isUserCancellation_def refused_error_def)

lemma retry_loop_resolved:
  "attempt \<le> MAX_RETRIES \<Longrightarrow> fn w = (Resolved r, w') \<Longrightarrow>
     retry_loop fn wait attempt lastError w tr = (Returned r, w', tr @ [Succeeded attempt])"
  by (simp add: retry_loop.simps [of fn wait attempt lastError w tr])

lemma retry_loop_cancelled:
  "attempt \<le> MAX_RETRIES \<Longrightarrow> fn w = (Rejected e, w') \<Longrightarrow> isUserCancellation e \<Longrightarrow>
     retry_loop fn wait attempt lastError w tr = (Threw (Some e), w', tr @ [Failed attempt e])"
  by (simp add: retry_loop.simps [of fn wait attempt lastError w tr])

lemma retry_loop_last:
  "fn w = (Rejected e, w') \<Longrightarrow>
     retry_loop fn wait MAX_RETRIES lastError w tr
       = (Threw (Some e), w', tr @ [Failed MAX_RETRIES e])"
  by (simp add: retry_loop.simps [of fn wait MAX_RETRIES lastError w tr])

lemma retry_loop_again:
  "attempt < MAX_RETRIES \<Longrightarrow> fn w = (Rejected e, w') \<Longrightarrow> \<not> isUserCancellation e \<Longrightarrow>
     retry_loop fn wait attempt lastError w tr =
       retry_loop fn wait (attempt + 1) (Some e) (wait RETRY_DELAY w')
         (tr @ [Failed attempt e, Waited RETRY_DELAY])"
  by (simp add: retry_loop.simps [of fn wait attempt lastError w tr])

lemma retry_loop_attempts:
  "attempts (snd (snd (retry_loop fn wait attempt lastError w tr)))
     \<le> attempts tr + (MAX_RETRIES + 1 - attempt)"
proof (induction fn wait attempt lastError w tr rule: retry_loop.induct)
  case (1 fn wait attempt lastError w tr)
  show ?case
  proof (cases "attempt \<le> MAX_RETRIES")
    case False
    then show ?thesis
      by (simp add: retry_loop.simps [of fn wait attempt lastError w tr])
  next
    case le: True
    obtain out w' where step: "fn w = (out, w')" by (cases "fn w")
    show ?thesis
    proof (cases out)
      case (Resolved r)
      with le step show ?thesis
        by (simp add: retry_loop_resolved attempts_def)
    next
      case (Rejected e)
      show ?thesis
      proof (cases "isUserCancellation e \<or> attempt = MAX_RETRIES")
        case True
        with le step Rejected show ?thesis
          by (auto simp: retry_loop_cancelled retry_loop_last attempts_def)
      next
        case False
        with le have lt: "attempt < MAX_RETRIES" by simp
        from False have nc: "\<not> isUserCancellation e" and ne: "attempt \<noteq> MAX_RETRIES" by simp_all
        from "1.IH" [OF le step [symmetric] Rejected nc ne]
        have "attempts (snd (snd (retry_loop fn wait (attempt + 1) (Some e) (wait RETRY_DELAY w')
                (tr @ [Failed attempt e, Waited RETRY_DELAY]))))
              \<le> attempts (tr @ [Failed attempt e, Waited RETRY_DELAY])
                  + (MAX_RETRIES + 1 - (attempt + 1))" .
        with lt step Rejected nc show ?thesis
          by (simp add: retry_loop_again attempts_def)
      qed
    qed
  qed
qed

lemma retry_loop_threw:
  "attempt \<le> MAX_RETRIES \<Longrightarrow>
   retry_loop fn wait attempt lastError w tr = (Threw x, w', tr') \<Longrightarrow>
     \<exists>k e. tr' \<noteq> [] \<and> last tr' = Failed k e \<and> x = Some e"
proof (induction fn wait attempt lastError w tr rule: retry_loop.induct)
  case (1 fn wait attempt lastError w tr)
  note le = "1.prems"(1)
  obtain out w1 where step: "fn w = (out, w1)" by (cases "fn w")
  show ?case
  proof (cases out)
    case (Resolved r)
    with le step "1.prems"(2) show ?thesis
      by (simp add: retry_loop_resolved)
  next
    case (Rejected e)
    show ?thesis
    proof (cases "isUserCancellation e \<or> attempt = MAX_RETRIES")
      case True
      with le step Rejected "1.prems"(2) show ?thesis
        by (auto simp: retry_loop_cancelled retry_loop_last)
    next
      case False
      with le have lt: "attempt < MAX_RETRIES" by simp
      from False have nc: "\<not> isUserCancellation e" and ne: "attempt \<noteq> MAX_RETRIES" by simp_all
      from lt step Rejected nc "1.prems"(2)
      have "retry_loop fn wait (attempt + 1) (Some e) (wait RETRY_DELAY w1)
              (tr @ [Failed attempt e, Waited RETRY_DELAY]) = (Threw x, w', tr')"
        by (simp add: retry_loop_again)
      moreover from lt have "attempt + 1 \<le> MAX_RETRIES" by simp
      ultimately show ?thesis
        using "1.IH" [OF le step [symmetric] Rejected nc ne] by blast
    qed
  qed
qed

text \<open>
  Claim C8. If the attempt function fails with an error that is not a user cancellation
  on its first and second invocation and succeeds on the third, \<open>retryTransaction\<close>
  invokes it exactly three times, waits 2000 ms before each retry, and returns the result
  of the third. Whatever the attempt function does, it is invoked at most three times.
  If all three invocations fail, \<open>retryTransaction\<close> throws the error of the third; and
  whenever it throws, it throws the error of the last invocation.
\<close>

theorem retryTransaction_bounded:
  "(fn w0 = (Rejected e1, w1) \<and> \<not> isUserCancellation e1 \<and>
    fn (wait RETRY_DELAY w1) = (Rejected e2, w2) \<and> \<not> isUserCancellation e2 \<and>
    fn (wait RETRY_DELAY w2) = (Resolved r, w3) \<longrightarrow>
      retryTransaction fn wait w0 =
        (Returned r, w3, [Failed 1 e1, Waited 2000, Failed 2 e2, Waited 2000, Succeeded 3])) \<and>
   attempts (snd (snd (retryTransaction fn wait w))) \<le> 3 \<and>
   (fn w0 = (Rejected e1, w1) \<and> \<not> isUserCancellation e1 \<and>
    fn (wait RETRY_DELAY w1) = (Rejected e2, w2) \<and> \<not> isUserCancellation e2 \<and>
    fn (wait RETRY_DELAY w2) = (Rejected e3, w3) \<longrightarrow>
      retryTransaction fn wait w0 =
        (Threw (Some e3), w3, [Failed 1 e1, Waited 2000, Failed 2 e2, Waited 2000, Failed 3 e3])) \<and>
   (retryTransaction fn wait w = (Threw x, w', tr) \<longrightarrow>
      (\<exists>k e. tr \<noteq> [] \<and> last tr = Failed k e \<and> x = Some e))"
proof -
  have two: "retryTransaction fn wait w0 =
      retry_loop fn wait 3 (Some e2) (wait RETRY_DELAY w2)
        [Failed 1 e1, Waited 2000, Failed 2 e2, Waited 2000]"
    if "fn w0 = (Rejected e1, w1)" "\<not> isUserCancellation e1"
      "fn (wait RETRY_DELAY w1) = (Rejected e2, w2)" "\<not> isUserCancellation e2"
  proof -
    from that(1,2) have "retryTransaction fn wait w0 =
        retry_loop fn wait 2 (Some e1) (wait RETRY_DELAY w1) [Failed 1 e1, Waited 2000]"
      by (simp add: retryTransaction_def retry_loop_again MAX_RETRIES_def RETRY_DELAY_def
            numeral_2_eq_2)
    also from that(3,4) have "\<dots> = retry_loop fn wait 3 (Some e2) (wait RETRY_DELAY w2)
        [Failed 1 e1, Waited 2000, Failed 2 e2, Waited 2000]"
      by (simp add: retry_loop_again MAX_RETRIES_def RETRY_DELAY_def
            numeral_2_eq_2 numeral_3_eq_3)
    finally show ?thesis .
  qed
  have success: "retryTransaction fn wait w0 =
        (Returned r, w3, [Failed 1 e1, Waited 2000, Failed 2 e2, Waited 2000, Succeeded 3])"
    if "fn w0 = (Rejected e1, w1)" "\<not> isUserCancellation e1"
      "fn (wait RETRY_DELAY w1) = (Rejected e2, w2)" "\<not> isUserCancellation e2"
      "fn (wait RETRY_DELAY w2) = (Resolved r, w3)"
    using two [OF that(1-4)] that(5)
    by (simp add: retry_loop_resolved [where attempt = 3] MAX_RETRIES_def)
  have exhausted: "retryTransaction fn wait w0 =
        (Threw (Some e3), w3, [Failed 1 e1, Waited 2000, Failed 2 e2, Waited 2000, Failed 3 e3])"
    if "fn w0 = (Rejected e1, w1)" "\<not> isUserCancellation e1"
      "fn (wait RETRY_DELAY w1) = (Rejected e2, w2)" "\<not> isUserCancellation e2"
      "fn (wait RETRY_DELAY w2) = (Rejected e3, w3)"
    using two [OF that(1-4)]
      retry_loop_last [where fn = fn and w = "wait RETRY_DELAY w2" and e = e3 and w' = w3,
        OF that(5)]
    by (simp add: MAX_RETRIES_def)
  have bound: "attempts (snd (snd (retryTransaction fn wait w))) \<le> 3"
    using retry_loop_attempts [of fn wait 1 None w "[]"]
    by (simp add: retryTransaction_def MAX_RETRIES_def attempts_def)
  have threw: "\<exists>k e. tr \<noteq> [] \<and> last tr = Failed k e \<and> x = Some e"
    if "retryTransaction fn wait w = (Threw x, w', tr)"
    using that retry_loop_threw [of 1 fn wait None w "[]" x w' tr]
    by (simp add: retryTransaction_def MAX_RETRIES_def)
  from success exhausted bound threw show ?thesis by blast
qed

theorem retryTransaction_bounded_witness:
  "retryTransaction flaky no_wait 0 =
     (Returned ''0xabc'', 3,
      [Failed 1 timeout_error, Waited 2000, Failed 2 timeout_error, Waited 2000, Succeeded 3]) \<and>
   attempts (snd (snd (retryTransaction flaky no_wait 0))) = 3 \<and>
   retryTransaction always_down no_wait 0 =
     (Threw (Some timeout_error), 3,
      [Failed 1 timeout_error, Waited 2000, Failed 2 timeout_error, Waited 2000,
       Failed 3 timeout_error])"
proof -
  have f: "flaky 0 = (Rejected timeout_error, 1)"
    "flaky (no_wait RETRY_DELAY 1) = (Rejected timeout_error, 2)"
    "flaky (no_wait RETRY_DELAY 2) = (Resolved ''0xabc'', 3)"
    by (simp_all add: flaky_def no_wait_def)
  have d: "always_down 0 = (Rejected timeout_error, 1)"
    "always_down (no_wait RETRY_DELAY 1) = (Rejected timeout_error, 2)"
    "always_down (no_wait RETRY_DELAY 2) = (Rejected timeout_error, 3)"
    by (simp_all add: always_down_def no_wait_def)
  from f timeout_not_cancel
    retryTransaction_bounded [where fn = flaky and wait = no_wait and ?w0.0 = 0
      and ?e1.0 = timeout_error and ?w1.0 = 1 and ?e2.0 = timeout_error and ?w2.0 = 2
      and r = "''0xabc''" and ?w3.0 = 3]
  have ok: "retryTransaction flaky no_wait 0 =
     (Returned ''0xabc'', 3,
      [Failed 1 timeout_error, Waited 2000, Failed 2 timeout_error, Waited 2000, Succeeded 3])"
    by blast
  from d timeout_not_cancel
    retryTransaction_bounded [where fn = always_down and wait = no_wait and ?w0.0 = 0
      and ?e1.0 = timeout_error and ?w1.0 = 1 and ?e2.0 = timeout_error and ?w2.0 = 2
      and ?e3.0 = timeout_error and ?w3.0 = 3]
  have down: "retryTransaction always_down no_wait 0 =
     (Threw (Some timeout_error), 3,
      [Failed 1 timeout_error, Waited 2000, Failed 2 timeout_error, Waited 2000,
       Failed 3 timeout_error])"
    by blast
  from ok have "attempts (snd (snd (retryTransaction flaky no_wait 0))) = 3"
    by (simp add: attempts_def)
  with ok down show ?thesis by simp
qed

text \<open>
  What the loop does with an error that passes its own test (the message contains
  "user rejected" or "User denied", or the code is ACTION_REJECTED): it throws that error
  at once, whatever the number of the attempt, without a wait or a further invocation.
\<close>

lemma recognised_cancellation_stops:
  "(attempt \<le> MAX_RETRIES \<and> fn w = (Rejected e, w') \<and> isUserCancellation e \<longrightarrow>
      retry_loop fn wait attempt lastError w tr = (Threw (Some e), w', tr @ [Failed attempt e])) \<and>
   (fn w = (Rejected e, w') \<and> isUserCancellation e \<longrightarrow>
      retryTransaction fn wait w = (Threw (Some e), w', [Failed 1 e]) \<and>
      attempts (snd (snd (retryTransaction fn wait w))) = 1)"
  by (simp add: retry_loop_cancelled retryTransaction_def MAX_RETRIES_def attempts_def)

text \<open>
  Claim C9 says that an attempt which fails because the user declined or denied signing
  is never retried: the loop fails after exactly that one attempt. The loop's comment says
  the same ("Don't retry on user cancellation"), but its test is three case-sensitive
  comparisons. The refusal that a wallet reports by EIP-1193, code 4001 with the message
  "User rejected the request.", passes none of them: the message has a capital U where
  the test looks for "user rejected", it does not contain "User denied", and the code is
  not the string ACTION_REJECTED. The loop takes the refusal for a transient failure: it
  asks the user to sign three times, with two waits of 2000 ms, before it throws. The
  refusal in MetaMask's wording ("User denied ...") and the one wrapped by ethers
  (ACTION_REJECTED) do pass the test, and the loop stops after one attempt.
\<close>

theorem declined_request_is_retried:
  "\<not> isUserCancellation refused_error \<and>
   retryTransaction refusing no_wait 0 =
     (Threw (Some refused_error), 3,
      [Failed 1 refused_error, Waited 2000, Failed 2 refused_error, Waited 2000,
       Failed 3 refused_error]) \<and>
   attempts (snd (snd (retryTransaction refusing no_wait 0))) = 3 \<and>
   isUserCancellation denied_error \<and> isUserCancellation rejected_error \<and>
   retryTransaction declining no_wait 0 = (Threw (Some denied_error), 1, [Failed 1 denied_error])"
proof -
  have r: "refusing 0 = (Rejected refused_error, 1)"
    "refusing (no_wait RETRY_DELAY 1) = (Rejected refused_error, 2)"
    "refusing (no_wait RETRY_DELAY 2) = (Rejected refused_error, 3)"
    by (simp_all add: refusing_def no_wait_def)
  have "retryTransaction refusing no_wait 0 =
      retry_loop refusing no_wait 2 (Some refused_error) (no_wait RETRY_DELAY 1)
        [Failed 1 refused_error, Waited 2000]"
    using r(1) refused_not_cancel
    by (simp add: retryTransaction_def retry_loop_again MAX_RETRIES_def RETRY_DELAY_def
          numeral_2_eq_2)
  also have "\<dots> = retry_loop refusing no_wait 3 (Some refused_error) (no_wait RETRY_DELAY 2)
        [Failed 1 refused_error, Waited 2000, Failed 2 refused_error, Waited 2000]"
    using r(2) refused_not_cancel
    by (simp add: retry_loop_again MAX_RETRIES_def RETRY_DELAY_def numeral_2_eq_2 numeral_3_eq_3)
  also have "\<dots> = (Threw (Some refused_error), 3,
      [Failed 1 refused_error, Waited 2000, Failed 2 refused_error, Waited 2000,
       Failed 3 refused_error])"
    using retry_loop_last [where fn = refusing and w = "no_wait RETRY_DELAY 2"
        and e = refused_error and w' = 3, OF r(3)]
    by (simp add: MAX_RETRIES_def)
  finally have thrice: "retryTransaction refusing no_wait 0 =
     (Threw (Some refused_error), 3,
      [Failed 1 refused_error, Waited 2000, Failed 2 refused_error, Waited 2000,
       Failed 3 refused_error])" .
  then have n: "attempts (snd (snd (retryTransaction refusing no_wait 0))) = 3"
    by (simp add: attempts_def)
  have "declining 0 = (Rejected denied_error, 1)"
    by (simp add: declining_def)
  with denied_cancel
  have once: "retryTransaction declining no_wait 0
      = (Threw (Some denied_error), 1, [Failed 1 denied_error])"
    by (simp add: retryTransaction_def retry_loop_cancelled MAX_RETRIES_def)
  from refused_not_cancel thrice n denied_cancel rejected_cancel once show ?thesis by blast
qed

end
